theory Spec2Isabelle
  imports Main
begin

section \<open>The Subtract Square game state of \<^verbatim>\<open>game_state.py\<close>\<close>

text \<open>
  The module defines the abstract class \<^verbatim>\<open>GameState\<close> (a turn flag and the three outcome
  constants) and its one concrete subclass \<^verbatim>\<open>SubtractSquareGameState\<close>, which adds the
  remaining total \<^verbatim>\<open>current_value\<close>. Python integers are unbounded, so they are
  \<^typ>\<open>int\<close>. The methods never mutate \<^verbatim>\<open>self\<close>: each is a function of the state.
  An exception raised by the interpreter is a value \<open>Inl e\<close> of the result.

  Two limits of the interpreter are configuration, not part of the meaning of the
  operations, and are left out: the recursion limit and the limit on the number of digits
  when an integer is converted to a string.
\<close>

subsection \<open>Data\<close>

datatype py_error = TypeError | OverflowError

definition WIN :: int where "WIN = 1"
definition LOSE :: int where "LOSE = - 1"
definition DRAW :: int where "DRAW = 0"

record GameState =
  p1_turn :: bool

record SubtractSquareGameState = GameState +
  current_value :: int

text \<open>The constructor \<^verbatim>\<open>SubtractSquareGameState(is_p1_turn, current_value)\<close>.\<close>

definition init :: "bool \<Rightarrow> int \<Rightarrow> SubtractSquareGameState" where
  "init is_p1_turn v = \<lparr>p1_turn = is_p1_turn, current_value = v\<rparr>"

definition get_current_player_name :: "SubtractSquareGameState \<Rightarrow> string" where
  "get_current_player_name s = (if p1_turn s then ''p1'' else ''p2'')"

subsection \<open>Converting an integer to a double and taking its square root\<close>

text \<open>
  \<^verbatim>\<open>self.current_value ** 0.5\<close> has an \<^verbatim>\<open>int\<close> on the left and a \<^verbatim>\<open>float\<close> on the
  right: the integer is first converted to an IEEE 754 double, rounding to 53 significant
  bits, ties to even (\<open>round_53\<close>, on the magnitude), and the conversion raises
  \<^verbatim>\<open>OverflowError\<close> when the rounded value does not fit. A double that came from an
  integer is itself an integer, so it is represented by that integer.
\<close>

fun bit_length :: "nat \<Rightarrow> nat" where
  "bit_length n = (if n = 0 then 0 else bit_length (n div 2) + 1)"

declare bit_length.simps [simp del]

definition round_53 :: "nat \<Rightarrow> nat" where
  "round_53 a =
     (let n = bit_length a in
      if n \<le> 53 then a
      else
        let sh = n - 53; q = a div 2 ^ sh; r = a mod 2 ^ sh; h = 2 ^ (sh - 1);
            q' = (if h < r \<or> (r = h \<and> odd q) then q + 1 else q)
        in q' * 2 ^ sh)"

definition float_of_int :: "int \<Rightarrow> py_error + int" where
  "float_of_int v =
     (let x = round_53 (nat \<bar>v\<bar>)
      in if 2 ^ 1024 \<le> x then Inl OverflowError else Inr (sgn v * int x))"

text \<open>The integer square root, rounded down, by one binary digit of the root per call.\<close>

definition isqrt_step :: "nat \<Rightarrow> nat \<Rightarrow> nat" where
  "isqrt_step n r = (if (r + 1) * (r + 1) \<le> n then r + 1 else r)"

fun isqrt :: "nat \<Rightarrow> nat" where
  "isqrt n = (if n < 2 then n else isqrt_step n (2 * isqrt (n div 4)))"

declare isqrt.simps [simp del]

text \<open>
  \<^verbatim>\<open>int(x ** 0.5)\<close> for a double \<open>x \<ge> 0\<close> of integer value. The power is taken to be the
  square root rounded to the nearest double (ties to even), as IEEE 754 asks of the square
  root; \<^verbatim>\<open>int\<close> then drops the fraction. With \<open>n\<close> the number of bits of \<open>x\<close>, the root is
  \<open>M * 2 ^ e / 2 ^ k\<close> for a 53-bit \<open>M\<close>: \<open>m\<close> is the root of \<open>x * 4 ^ k / 4 ^ e\<close> rounded down,
  and \<open>M\<close> is \<open>m + 1\<close> when the root lies above the midpoint \<open>m + 1/2\<close>, that is
  when \<open>(2 * m + 1)\<^sup>2 * 4 ^ e < 4 * x * 4 ^ k\<close>.

  The power function of a C library may return a neighbour of the nearest double for some
  \<open>x\<close> above \<open>2\<^sup>5\<^sup>3\<close>. The one large value evaluated below is the double \<open>2\<^sup>5\<^sup>4\<close>, whose
  root \<open>2\<^sup>2\<^sup>7\<close> is itself a double.
\<close>

definition round_nearest :: "nat \<Rightarrow> nat \<Rightarrow> nat \<Rightarrow> nat \<Rightarrow> nat" where
  "round_nearest x k e m =
     (if (2 * m + 1) * (2 * m + 1) * 4 ^ e < 4 * x * 4 ^ k
         \<or> ((2 * m + 1) * (2 * m + 1) * 4 ^ e = 4 * x * 4 ^ k \<and> odd m)
      then m + 1 else m)"

definition float_sqrt_trunc :: "nat \<Rightarrow> nat" where
  "float_sqrt_trunc x =
     (let n = bit_length x; k = (106 - n) div 2; e = (n - 105) div 2
      in round_nearest x k e (isqrt (x * 4 ^ k div 4 ^ e)) * 2 ^ e div 2 ^ k)"

text \<open>
  \<^verbatim>\<open>int(v ** 0.5)\<close> for an integer \<open>v\<close>. A negative base with the exponent \<open>0.5\<close> gives a
  \<^verbatim>\<open>complex\<close>, which \<^verbatim>\<open>int\<close> refuses with \<^verbatim>\<open>TypeError\<close>.
\<close>

definition int_sqrt_float :: "int \<Rightarrow> py_error + int" where
  "int_sqrt_float v =
     (case float_of_int v of
        Inl e \<Rightarrow> Inl e
      | Inr x \<Rightarrow> if x < 0 then Inl TypeError else Inr (int (float_sqrt_trunc (nat x))))"

subsection \<open>The methods of \<^verbatim>\<open>SubtractSquareGameState\<close>\<close>

text \<open>\<^verbatim>\<open>[i * i for i in range(1, int(self.current_value ** 0.5) + 1)]\<close>\<close>

definition get_possible_moves :: "SubtractSquareGameState \<Rightarrow> py_error + int list" where
  "get_possible_moves s =
     (case int_sqrt_float (current_value s) of
        Inl e \<Rightarrow> Inl e
      | Inr n \<Rightarrow> Inr (map (\<lambda>i. i * i) [1 .. n]))"

text \<open>
  \<^verbatim>\<open>make_move\<close> subtracts and flips the turn; it builds a new object and checks nothing.
  The subtraction of two integers cannot fail.
\<close>

definition make_move :: "SubtractSquareGameState \<Rightarrow> int \<Rightarrow> SubtractSquareGameState" where
  "make_move s move = (let new_value = current_value s - move in init (\<not> p1_turn s) new_value)"

text \<open>\<^verbatim>\<open>GameState.is_valid_move\<close>, inherited: \<^verbatim>\<open>move in self.get_possible_moves()\<close>.\<close>

definition is_valid_move :: "SubtractSquareGameState \<Rightarrow> int \<Rightarrow> py_error + bool" where
  "is_valid_move s move =
     (case get_possible_moves s of Inl e \<Rightarrow> Inl e | Inr ms \<Rightarrow> Inr (move \<in> set ms))"

subsection \<open>String forms\<close>

text \<open>\<^verbatim>\<open>str\<close> of a \<^verbatim>\<open>bool\<close> and of an \<^verbatim>\<open>int\<close>, as an f-string inserts them.\<close>

definition str_bool :: "bool \<Rightarrow> string" where
  "str_bool b = (if b then ''True'' else ''False'')"

definition digit_char :: "nat \<Rightarrow> char" where
  "digit_char d = ''0123456789'' ! d"

fun digits :: "nat \<Rightarrow> string" where
  "digits n = (if n < 10 then [digit_char n] else digits (n div 10) @ [digit_char (n mod 10)])"

declare digits.simps [simp del]

definition str_int :: "int \<Rightarrow> string" where
  "str_int i = (if i < 0 then CHR ''-'' # digits (nat (- i)) else digits (nat i))"

definition str :: "SubtractSquareGameState \<Rightarrow> string" where
  "str s = ''Current value: '' @ str_int (current_value s) @ '', Player turn: ''
     @ get_current_player_name s"

definition repr :: "SubtractSquareGameState \<Rightarrow> string" where
  "repr s = ''SubtractSquareGameState(p1_turn='' @ str_bool (p1_turn s)
     @ '', current_value='' @ str_int (current_value s) @ '')''"

subsection \<open>The outcome estimate\<close>

text \<open>
  The loop of \<^verbatim>\<open>rough_outcome\<close>: for each move in turn, \<open>f\<close> is the outcome of the state
  after the move; the first outcome equal to \<^verbatim>\<open>LOSE\<close> ends the loop with \<^verbatim>\<open>WIN\<close>, an
  exception ends it too, and a loop that runs to its end gives \<^verbatim>\<open>DRAW\<close>.
\<close>

fun scan_moves :: "(int \<Rightarrow> py_error + int) \<Rightarrow> int list \<Rightarrow> py_error + int" where
  "scan_moves f [] = Inr DRAW"
| "scan_moves f (move # moves) =
     (case f move of
        Inl e \<Rightarrow> Inl e
      | Inr r \<Rightarrow> if r = LOSE then Inr WIN else scan_moves f moves)"

lemma scan_moves_cong [fundef_cong]:
  "ms = ms' \<Longrightarrow> (\<And>m. m \<in> set ms' \<Longrightarrow> f m = g m) \<Longrightarrow> scan_moves f ms = scan_moves g ms'"
  by (induction ms arbitrary: ms') (auto split: sum.splits)

text \<open>
  The recursion of \<^verbatim>\<open>rough_outcome\<close> ends because a listed move is at least \<open>1\<close> and
  moves are listed only at a value that is at least \<open>0\<close>.
\<close>

lemma bit_length_upper: "a < 2 ^ bit_length a"
proof (induction a rule: bit_length.induct)
  case (1 n)
  show ?case
  proof (cases "n = 0")
    case True
    then show ?thesis by simp
  next
    case False
    with 1 have "n div 2 < 2 ^ bit_length (n div 2)" by simp
    moreover have "bit_length n = bit_length (n div 2) + 1"
      using False by (subst bit_length.simps) simp
    ultimately show ?thesis by simp
  qed
qed

lemma bit_length_lower: "0 < a \<Longrightarrow> 2 ^ (bit_length a - 1) \<le> a"
proof (induction a rule: bit_length.induct)
  case (1 n)
  then have n: "n \<noteq> 0" by simp
  have bl: "bit_length n = bit_length (n div 2) + 1"
    using n by (subst bit_length.simps) simp
  show ?case
  proof (cases "n div 2 = 0")
    case True
    then have "bit_length (n div 2) = 0" by (simp add: bit_length.simps)
    with bl 1(2) show ?thesis by simp
  next
    case False
    with 1(1) n have ih: "2 ^ (bit_length (n div 2) - 1) \<le> n div 2" by simp
    have "0 < bit_length (n div 2)"
      using False by (subst bit_length.simps) simp
    then have "(2::nat) ^ bit_length (n div 2) = 2 * 2 ^ (bit_length (n div 2) - 1)"
      by (cases "bit_length (n div 2)") simp_all
    with ih bl show ?thesis by simp
  qed
qed

lemma round_53_pos: "0 < a \<Longrightarrow> 0 < round_53 a"
proof -
  assume a: "0 < a"
  show ?thesis
  proof (cases "bit_length a \<le> 53")
    case True
    with a show ?thesis by (simp add: round_53_def)
  next
    case False
    define sh where "sh = bit_length a - 53"
    have "(2::nat) ^ sh \<le> 2 ^ (bit_length a - 1)"
      unfolding sh_def by (rule power_increasing) simp_all
    also have "\<dots> \<le> a" by (rule bit_length_lower [OF a])
    finally have "2 ^ sh \<le> a" .
    then have "0 < a div 2 ^ sh" by (simp add: div_greater_zero_iff)
    with False show ?thesis by (simp add: round_53_def Let_def sh_def)
  qed
qed

lemma float_of_int_sign: "float_of_int v = Inr x \<Longrightarrow> (x < 0) = (v < 0)"
proof -
  assume h: "float_of_int v = Inr x"
  then have x: "x = sgn v * int (round_53 (nat \<bar>v\<bar>))"
    by (simp add: float_of_int_def Let_def split: if_splits)
  show ?thesis
  proof (cases "v < 0")
    case True
    then have "0 < round_53 (nat \<bar>v\<bar>)" by (intro round_53_pos) simp
    with True x show ?thesis by simp
  next
    case False
    with x show ?thesis by (simp add: sgn_if)
  qed
qed

lemma int_sqrt_float_nonneg: "int_sqrt_float v = Inr n \<Longrightarrow> 0 \<le> v"
proof -
  assume "int_sqrt_float v = Inr n"
  then obtain x where "float_of_int v = Inr x" and "\<not> x < 0"
    by (auto simp: int_sqrt_float_def split: sum.splits if_splits)
  then show ?thesis using float_of_int_sign by fastforce
qed

lemma moves_positive:
  "get_possible_moves s = Inr ms \<Longrightarrow> m \<in> set ms \<Longrightarrow> 1 \<le> m \<and> 0 \<le> current_value s"
proof -
  assume h: "get_possible_moves s = Inr ms" and m: "m \<in> set ms"
  from h obtain n where n: "int_sqrt_float (current_value s) = Inr n"
    and ms: "ms = map (\<lambda>i. i * i) [1 .. n]"
    by (auto simp: get_possible_moves_def split: sum.splits)
  from m ms obtain i where "1 \<le> i" and "m = i * i" by auto
  then have "1 * 1 \<le> m" by (simp only: mult_mono)
  with int_sqrt_float_nonneg [OF n] show ?thesis by simp
qed

text \<open>
  \<^verbatim>\<open>rough_outcome\<close> calls \<^verbatim>\<open>get_possible_moves\<close> twice, for the test and for the loop.
\<close>

function rough_outcome :: "SubtractSquareGameState \<Rightarrow> py_error + int" where
  "rough_outcome s =
     (case get_possible_moves s of
        Inl e \<Rightarrow> Inl e
      | Inr ms \<Rightarrow>
          if ms = [] then Inr LOSE
          else (case get_possible_moves s of
                  Inl e \<Rightarrow> Inl e
                | Inr moves \<Rightarrow> scan_moves (\<lambda>move. rough_outcome (make_move s move)) moves))"
  by pat_completeness auto
termination
proof (relation "measure (\<lambda>s. nat (current_value s + 1))")
  show "wf (measure (\<lambda>s. nat (current_value s + 1)))" by simp
next
  fix s :: SubtractSquareGameState and ms moves :: "int list" and m :: int
  assume "get_possible_moves s = Inr moves" and "m \<in> set moves"
  then have "1 \<le> m \<and> 0 \<le> current_value s" by (rule moves_positive)
  then show "(make_move s m, s) \<in> measure (\<lambda>s. nat (current_value s + 1))"
    by (simp add: make_move_def init_def)
qed

declare rough_outcome.simps [simp del]



text \<open>A run of the game: the moves are applied one after the other, each checked first.\<close>

fun valid_moves :: "SubtractSquareGameState \<Rightarrow> int list \<Rightarrow> bool" where
  "valid_moves s [] = True"
| "valid_moves s (m # ms) = (is_valid_move s m = Inr True \<and> valid_moves (make_move s m) ms)"

fun make_moves :: "SubtractSquareGameState \<Rightarrow> int list \<Rightarrow> SubtractSquareGameState" where
  "make_moves s [] = s"
| "make_moves s (m # ms) = make_moves (make_move s m) ms"

text \<open>
  The algorithm in the words of the specification, for the list of moves that
  \<^verbatim>\<open>getPossibleMoves\<close> returns and the value that \<^verbatim>\<open>roughOutcome\<close> returns on the successor
  of each move: with no moves the result is \<^verbatim>\<open>LOSE\<close>; otherwise the first move, in the
  order of the list, whose successor's outcome equals \<^verbatim>\<open>LOSE\<close> gives \<^verbatim>\<open>WIN\<close>; when no move
  does, the result is \<^verbatim>\<open>DRAW\<close>. The result is always one of the three constants.
\<close>

definition rough_outcome_spec :: "int list \<Rightarrow> (int \<Rightarrow> int) \<Rightarrow> int" where
  "rough_outcome_spec moves successor_outcome =
     (if moves = [] then LOSE
      else (case find (\<lambda>move. successor_outcome move = LOSE) moves of
              Some move \<Rightarrow> WIN
            | None \<Rightarrow> DRAW))"

section \<open>Properties\<close>

subsection \<open>Values at concrete inputs\<close>

lemmas float_eval = bit_length.simps isqrt.simps isqrt_step_def round_nearest_def

lemma int_sqrt_float_0: "int_sqrt_float 0 = Inr 0"
  unfolding int_sqrt_float_def float_of_int_def round_53_def float_sqrt_trunc_def Let_def
  by (simp add: float_eval)

lemma int_sqrt_float_1: "int_sqrt_float 1 = Inr 1"
  unfolding int_sqrt_float_def float_of_int_def round_53_def float_sqrt_trunc_def Let_def
  by (simp add: float_eval)

lemma int_sqrt_float_2: "int_sqrt_float 2 = Inr 1"
  unfolding int_sqrt_float_def float_of_int_def round_53_def float_sqrt_trunc_def Let_def
  by (simp add: float_eval)

lemma int_sqrt_float_3: "int_sqrt_float 3 = Inr 1"
  unfolding int_sqrt_float_def float_of_int_def round_53_def float_sqrt_trunc_def Let_def
  by (simp add: float_eval)

lemma int_sqrt_float_10: "int_sqrt_float 10 = Inr 3"
  unfolding int_sqrt_float_def float_of_int_def round_53_def float_sqrt_trunc_def Let_def
  by (simp add: float_eval)

lemma int_sqrt_float_2_54_minus_1: "int_sqrt_float 18014398509481983 = Inr 134217728"
  unfolding int_sqrt_float_def float_of_int_def round_53_def float_sqrt_trunc_def Let_def
  by (simp add: float_eval)

lemma int_sqrt_float_minus_1: "int_sqrt_float (- 1) = Inl TypeError"
  unfolding int_sqrt_float_def float_of_int_def round_53_def float_sqrt_trunc_def Let_def
  by (simp add: float_eval)

lemma moves_0: "get_possible_moves (init p 0) = Inr []"
  by (simp add: get_possible_moves_def init_def int_sqrt_float_0)

lemma moves_1: "get_possible_moves (init p 1) = Inr [1]"
  by (simp add: get_possible_moves_def init_def int_sqrt_float_1 upto.simps)

lemma moves_2: "get_possible_moves (init p 2) = Inr [1]"
  by (simp add: get_possible_moves_def init_def int_sqrt_float_2 upto.simps)

lemma moves_3: "get_possible_moves (init p 3) = Inr [1]"
  by (simp add: get_possible_moves_def init_def int_sqrt_float_3 upto.simps)

lemma moves_10: "get_possible_moves (init p 10) = Inr [1, 4, 9]"
  by (simp add: get_possible_moves_def init_def int_sqrt_float_10 upto.simps)

lemma make_move_init: "make_move (init p v) m = init (\<not> p) (v - m)"
  by (simp add: make_move_def init_def)

lemma rough_outcome_0: "rough_outcome (init p 0) = Inr LOSE"
  by (subst rough_outcome.simps) (simp add: moves_0)

lemma rough_outcome_1: "rough_outcome (init p 1) = Inr WIN"
  by (subst rough_outcome.simps) (simp add: moves_1 make_move_init rough_outcome_0)

lemma rough_outcome_2: "rough_outcome (init p 2) = Inr DRAW"
  by (subst rough_outcome.simps)
    (simp add: moves_2 make_move_init rough_outcome_1 WIN_def LOSE_def)

lemma rough_outcome_3: "rough_outcome (init p 3) = Inr DRAW"
  by (subst rough_outcome.simps)
    (simp add: moves_3 make_move_init rough_outcome_2 DRAW_def LOSE_def)

subsection \<open>Applying a move\<close>

text \<open>
  C3. For a move \<open>m\<close> that \<^verbatim>\<open>get_possible_moves\<close> lists, \<^verbatim>\<open>make_move\<close> returns a state whose
  value is the old value less \<open>m\<close> and whose turn flag is the negation of the old one.
  The result is a new value; the state \<open>s\<close> is an argument and stays what it was.
\<close>

theorem make_move_valid:
  assumes "get_possible_moves s = Inr ms" and "m \<in> set ms"
  shows "current_value (make_move s m) = current_value s - m
    \<and> p1_turn (make_move s m) = (\<not> p1_turn s)"
  by (simp add: make_move_def init_def)

theorem make_move_valid_witness:
  "get_possible_moves (init True 10) = Inr [1, 4, 9] \<and> (9::int) \<in> set [1, 4, 9]
    \<and> current_value (make_move (init True 10) 9) = 1
    \<and> p1_turn (make_move (init True 10) 9) = False"
proof -
  have h: "get_possible_moves (init True 10) = Inr [1, 4, 9]" by (rule moves_10)
  have m: "(9::int) \<in> set [1, 4, 9]" by simp
  from make_move_valid [OF h m] h m show ?thesis by (simp add: init_def)
qed

text \<open>
  C8. \<^verbatim>\<open>make_move\<close> checks nothing: for every integer move it returns the state with the
  value reduced by the move and the turn flipped. The move \<open>4\<close> is not among the moves of
  the value \<open>3\<close>, and applying it gives a state of negative value.
\<close>

theorem make_move_unchecked:
  "make_move s m = init (\<not> p1_turn s) (current_value s - m)
    \<and> current_value (make_move s m) = current_value s - m
    \<and> p1_turn (make_move s m) = (\<not> p1_turn s)
    \<and> is_valid_move (init True 3) 4 = Inr False
    \<and> current_value (make_move (init True 3) 4) = - 1"
  by (simp add: make_move_def init_def is_valid_move_def moves_3 [unfolded init_def])

subsection \<open>Turn alternation\<close>

lemma p1_turn_make_moves: "p1_turn (make_moves s ms) = (p1_turn s = even (length ms))"
  by (induction ms arbitrary: s) (auto simp: make_move_def init_def)

text \<open>
  C9. Starting from a state where it is the first player's turn, after a run of \<open>n\<close> valid
  moves it is the first player's turn exactly when \<open>n\<close> is even.
\<close>

theorem turn_alternation:
  assumes "p1_turn s" and "valid_moves s ms"
  shows "p1_turn (make_moves s ms) = even (length ms)"
  using assms(1) by (simp add: p1_turn_make_moves)

theorem turn_alternation_witness:
  "p1_turn (init True 10) \<and> valid_moves (init True 10) [9, 1]
    \<and> p1_turn (make_moves (init True 10) [9, 1]) = even (length [9, 1 :: int])
    \<and> get_possible_moves (make_moves (init True 10) [9, 1]) = Inr []
    \<and> get_current_player_name (make_moves (init True 10) [9, 1]) = ''p1''"
proof -
  have a: "p1_turn (init True 10)" by (simp add: init_def)
  have b: "valid_moves (init True 10) [9, 1]"
    by (simp add: is_valid_move_def moves_10 moves_1 make_move_init)
  have c: "make_moves (init True 10) [9, 1] = init True 0"
    by (simp add: make_move_init)
  have d: "p1_turn (make_moves (init True 10) [9, 1]) = even (length [9, 1 :: int])"
    by (rule turn_alternation [OF a b])
  have e: "get_possible_moves (make_moves (init True 10) [9, 1]) = Inr []"
    by (simp only: c moves_0)
  have f: "get_current_player_name (make_moves (init True 10) [9, 1]) = ''p1''"
    by (simp only: c) (simp add: get_current_player_name_def init_def)
  from a b d e f show ?thesis by (intro conjI)
qed

subsection \<open>The outcome estimate at small values\<close>

text \<open>
  C4. Whoever is to move: the value \<open>0\<close> has no moves and its estimate is \<^verbatim>\<open>LOSE\<close>; the
  value \<open>1\<close> gives \<^verbatim>\<open>WIN\<close>; the values \<open>2\<close> and \<open>3\<close> give \<^verbatim>\<open>DRAW\<close>.
\<close>

theorem rough_outcome_small:
  "get_possible_moves (init p 0) = Inr [] \<and> rough_outcome (init p 0) = Inr LOSE
    \<and> rough_outcome (init p 1) = Inr WIN
    \<and> rough_outcome (init p 2) = Inr DRAW
    \<and> rough_outcome (init p 3) = Inr DRAW
    \<and> LOSE = - 1 \<and> WIN = 1 \<and> DRAW = 0"
  by (simp add: moves_0 rough_outcome_0 rough_outcome_1 rough_outcome_2 rough_outcome_3
      LOSE_def WIN_def DRAW_def)

subsection \<open>The list of moves\<close>

text \<open>
  C2, at the value \<open>2\<^sup>5\<^sup>4 - 1\<close>. The conversion to a double rounds the value up to \<open>2\<^sup>5\<^sup>4\<close>,
  whose root is \<open>2\<^sup>2\<^sup>7\<close>, so the list of moves ends with the square \<open>2\<^sup>5\<^sup>4\<close>, which is larger
  than the value.
\<close>

theorem moves_exceed_value:
  "get_possible_moves (init True 18014398509481983)
     = Inr (map (\<lambda>i. i * i) [1 .. 134217728])
   \<and> (18014398509481984 :: int) \<in> set (map (\<lambda>i. i * i) [1 .. 134217728])
   \<and> current_value (init True 18014398509481983) < 18014398509481984"
proof -
  have "(18014398509481984 :: int) = 134217728 * 134217728" by simp
  moreover have "(134217728 :: int) \<in> set [1 .. 134217728]" by simp
  ultimately have "(18014398509481984 :: int) \<in> (\<lambda>i. i * i) ` set [1 .. 134217728]"
    by (rule image_eqI)
  then show ?thesis
    by (simp add: get_possible_moves_def init_def int_sqrt_float_2_54_minus_1)
qed

lemma moves_error_if_negative:
  assumes "current_value s < 0"
  shows "\<exists>e. get_possible_moves s = Inl e"
proof (cases "get_possible_moves s")
  case (Inl e)
  then show ?thesis by blast
next
  case (Inr ms)
  then obtain n where "int_sqrt_float (current_value s) = Inr n"
    by (auto simp: get_possible_moves_def split: sum.splits)
  from int_sqrt_float_nonneg [OF this] assms show ?thesis by simp
qed

text \<open>
  C6 as stated fails at the value \<open>-1\<close>: the call raises \<^verbatim>\<open>TypeError\<close> and returns no list.
\<close>

theorem moves_below_one_counterexample:
  "current_value (init True (- 1)) < 1
    \<and> get_possible_moves (init True (- 1)) = Inl TypeError
    \<and> get_possible_moves (init True (- 1)) \<noteq> Inr []"
  by (simp add: get_possible_moves_def init_def int_sqrt_float_minus_1)

text \<open>
  C6, amended. For a value below \<open>1\<close>: at \<open>0\<close> the list of moves is empty; at a negative
  value the call raises and returns no list.
\<close>

theorem moves_below_one:
  assumes "current_value s < 1"
  shows "if current_value s = 0 then get_possible_moves s = Inr []
         else (\<exists>e. get_possible_moves s = Inl e)"
proof (cases "current_value s = 0")
  case True
  then show ?thesis by (simp add: get_possible_moves_def int_sqrt_float_0)
next
  case False
  with assms have "current_value s < 0" by simp
  from moves_error_if_negative [OF this] False show ?thesis by simp
qed

theorem moves_below_one_witness:
  "current_value (init True 0) < 1 \<and> get_possible_moves (init True 0) = Inr []
    \<and> current_value (init False (- 4)) < 1
    \<and> (\<exists>e. get_possible_moves (init False (- 4)) = Inl e)"
proof -
  have a: "current_value (init True 0) < 1" by (simp add: init_def)
  have b: "current_value (init False (- 4)) < 1" by (simp add: init_def)
  have c: "current_value (init True 0) = 0" by (simp add: init_def)
  have d: "current_value (init False (- 4)) \<noteq> 0" by (simp add: init_def)
  from moves_below_one [OF a] c have e: "get_possible_moves (init True 0) = Inr []"
    by simp
  from moves_below_one [OF b] d have f: "\<exists>e. get_possible_moves (init False (- 4)) = Inl e"
    by simp
  from a b e f show ?thesis by (intro conjI)
qed

lemma moves_ascending:
  assumes "get_possible_moves s = Inr ms"
  shows "sorted_wrt (<) ms"
proof -
  from assms obtain n where ms: "ms = map (\<lambda>i. i * i) [1 .. n]"
    by (auto simp: get_possible_moves_def split: sum.splits)
  have "sorted_wrt (\<lambda>i j :: int. i * i < j * j) [1 .. n]"
  proof (rule sorted_wrt_mono_rel [of _ "(<)"])
    fix i j :: int
    assume "i \<in> set [1 .. n]" and "i < j"
    then have "0 \<le> i" and "i < j" by simp_all
    then show "i * i < j * j" by (intro mult_strict_mono') simp_all
  qed simp
  then show ?thesis by (simp add: ms sorted_wrt_map)
qed

subsection \<open>Termination of the outcome estimate\<close>






subsection \<open>The canonical form\<close>

lemma digit_char_inj:
  assumes "d < 10" and "d' < 10" and "digit_char d = digit_char d'"
  shows "d = d'"
proof -
  have "distinct ''0123456789''" by simp
  moreover have "d < length ''0123456789''" and "d' < length ''0123456789''"
    using assms by simp_all
  ultimately show ?thesis
    using assms(3) unfolding digit_char_def by (simp only: nth_eq_iff_index_eq)
qed

lemma digit_char_in: "d < 10 \<Longrightarrow> digit_char d \<in> set ''0123456789''"
  unfolding digit_char_def by (rule nth_mem) simp

lemma digits_chars: "set (digits n) \<subseteq> set ''0123456789''"
proof (induction n rule: digits.induct)
  case (1 n)
  show ?case
  proof (cases "n < 10")
    case True
    then show ?thesis using digit_char_in [of n] by (subst digits.simps) simp
  next
    case False
    have "n mod 10 < 10" by simp
    from digit_char_in [OF this] 1 [OF False] False show ?thesis
      by (subst digits.simps) simp
  qed
qed

lemma digits_nonempty: "digits n \<noteq> []"
  by (subst digits.simps) simp

lemma digits_inj: "digits n = digits m \<Longrightarrow> n = m"
proof (induction n arbitrary: m rule: digits.induct)
  case (1 n)
  show ?case
  proof (cases "n < 10")
    case n: True
    show ?thesis
    proof (cases "m < 10")
      case True
      with n 1(2) have "digit_char n = digit_char m" by (simp add: digits.simps)
      with n True show ?thesis by (rule digit_char_inj)
    next
      case False
      with n 1(2) have "[digit_char n] = digits (m div 10) @ [digit_char (m mod 10)]"
        by (simp add: digits.simps)
      then have "digits (m div 10) = []" by simp
      with digits_nonempty show ?thesis by blast
    qed
  next
    case n: False
    show ?thesis
    proof (cases "m < 10")
      case True
      with n 1(2) have "digits (n div 10) @ [digit_char (n mod 10)] = [digit_char m]"
        by (simp add: digits.simps)
      then have "digits (n div 10) = []" by simp
      with digits_nonempty show ?thesis by blast
    next
      case False
      with n 1(2) have "digits (n div 10) @ [digit_char (n mod 10)]
        = digits (m div 10) @ [digit_char (m mod 10)]"
        by (simp add: digits.simps)
      then have a: "digits (n div 10) = digits (m div 10)"
        and b: "digit_char (n mod 10) = digit_char (m mod 10)" by simp_all
      from 1(1) [OF n a] have "n div 10 = m div 10" .
      moreover have "n mod 10 = m mod 10"
        by (rule digit_char_inj [OF _ _ b]) simp_all
      ultimately show ?thesis by (metis div_mult_mod_eq)
    qed
  qed
qed

lemma digits_no_minus: "digits n \<noteq> CHR ''-'' # cs"
proof
  assume "digits n = CHR ''-'' # cs"
  then have "CHR ''-'' \<in> set (digits n)" by simp
  with digits_chars [of n] show False by auto
qed

lemma str_int_inj:
  assumes "str_int i = str_int j"
  shows "i = j"
proof (cases "i < 0")
  case i: True
  show ?thesis
  proof (cases "j < 0")
    case True
    with i assms have "digits (nat (- i)) = digits (nat (- j))" by (simp add: str_int_def)
    then have "nat (- i) = nat (- j)" by (rule digits_inj)
    with i True show ?thesis by simp
  next
    case False
    with i assms have "digits (nat j) = CHR ''-'' # digits (nat (- i))"
      by (simp add: str_int_def)
    with digits_no_minus show ?thesis by blast
  qed
next
  case i: False
  show ?thesis
  proof (cases "j < 0")
    case True
    with i assms have "digits (nat i) = CHR ''-'' # digits (nat (- j))"
      by (simp add: str_int_def)
    with digits_no_minus show ?thesis by blast
  next
    case False
    with i assms have "digits (nat i) = digits (nat j)" by (simp add: str_int_def)
    then have "nat i = nat j" by (rule digits_inj)
    with i False show ?thesis by simp
  qed
qed

lemma str_bool_prefix: "str_bool b @ xs = str_bool c @ ys \<Longrightarrow> b = c"
  by (cases b; cases c) (simp_all add: str_bool_def)

text \<open>
  C7. The canonical form is determined by the turn flag and the value together: two states
  have the same canonical form exactly when they agree on both fields.
\<close>

theorem repr_canonical:
  "(repr s = repr t) = (p1_turn s = p1_turn t \<and> current_value s = current_value t)"
proof
  assume h: "repr s = repr t"
  then have e: "str_bool (p1_turn s) @ '', current_value='' @ str_int (current_value s) @ '')''
    = str_bool (p1_turn t) @ '', current_value='' @ str_int (current_value t) @ '')''"
    by (simp add: repr_def)
  then have p: "p1_turn s = p1_turn t" by (rule str_bool_prefix)
  with e have "str_int (current_value s) = str_int (current_value t)" by simp
  then have "current_value s = current_value t" by (rule str_int_inj)
  with p show "p1_turn s = p1_turn t \<and> current_value s = current_value t" ..
next
  assume "p1_turn s = p1_turn t \<and> current_value s = current_value t"
  then show "repr s = repr t" by (simp add: repr_def)
qed

lemma repr_example_10: "repr (init True 10) = ''SubtractSquareGameState(p1_turn=True, current_value=10)''"
  by (simp add: repr_def init_def str_bool_def str_int_def digits.simps digit_char_def)
lemma str_int_example: "str_int (- 307) = ''-307''"
  by (simp add: str_int_def digits.simps digit_char_def)

subsection \<open>Where the list of moves is defined\<close>

lemma bit_length_0: "bit_length 0 = 0" by (simp add: bit_length.simps)

lemma round_53_small: "bit_length a \<le> 53 \<Longrightarrow> round_53 a = a \<and> a < 2 ^ 53"
proof -
  assume h: "bit_length a \<le> 53"
  have "a < 2 ^ bit_length a" by (rule bit_length_upper)
  also have "\<dots> \<le> 2 ^ 53" using h by (intro power_increasing) simp_all
  finally show ?thesis using h by (simp add: round_53_def)
qed

lemma round_53_large:
  assumes "53 < bit_length a"
  defines "sh \<equiv> bit_length a - 53"
  defines "q \<equiv> a div 2 ^ sh"
  defines "r \<equiv> a mod 2 ^ sh"
  shows "round_53 a = (if 2 ^ (sh - 1) < r \<or> (r = 2 ^ (sh - 1) \<and> odd q) then q + 1 else q) * 2 ^ sh"
    and "2 ^ 52 \<le> q" and "q < 2 ^ 53" and "a = q * 2 ^ sh + r" and "r < 2 ^ sh"
    and "bit_length a = sh + 53"
proof -
  show n: "bit_length a = sh + 53" using assms(1) by (simp add: sh_def)
  show "round_53 a = (if 2 ^ (sh - 1) < r \<or> (r = 2 ^ (sh - 1) \<and> odd q) then q + 1 else q) * 2 ^ sh"
    using assms(1) by (simp add: round_53_def Let_def sh_def q_def r_def)
  show "a = q * 2 ^ sh + r" by (simp only: q_def r_def div_mult_mod_eq)
  show "r < 2 ^ sh" by (simp add: r_def)
  have "a \<noteq> 0" using assms(1) bit_length_0 by (cases "a = 0") simp_all
  then have "2 ^ (bit_length a - 1) \<le> a" by (intro bit_length_lower) simp
  moreover have "(2::nat) ^ (bit_length a - 1) = 2 ^ 52 * 2 ^ sh"
    by (simp only: n power_add [symmetric]) simp
  ultimately have "2 ^ 52 * 2 ^ sh \<le> a" by simp
  then show "2 ^ 52 \<le> q" unfolding q_def by (simp add: less_eq_div_iff_mult_less_eq)
  have "a < 2 ^ bit_length a" by (rule bit_length_upper)
  also have "(2::nat) ^ bit_length a = 2 ^ 53 * 2 ^ sh"
    by (simp only: n power_add [symmetric]) (simp add: add.commute)
  finally show "q < 2 ^ 53" unfolding q_def by (rule less_mult_imp_div_less)
qed

lemma round_53_overflow: "(2 ^ 1024 \<le> round_53 a) = (2 ^ 1024 - 2 ^ 970 \<le> a)"
proof -
  define H :: nat where "H = 2 ^ 970"
  have H: "0 < H" by (simp add: H_def)
  have e1: "(2::nat) ^ 1024 = 18014398509481984 * H" by (simp add: H_def)
  have e2: "(2::nat) ^ 1024 - 2 ^ 970 = 18014398509481983 * H" by (simp add: H_def)
  have goal: "(18014398509481984 * H \<le> round_53 a) = (18014398509481983 * H \<le> a)"
  proof (cases "bit_length a \<le> 53")
    case True
    then have "round_53 a = a" and "a < 9007199254740992"
      using round_53_small [of a] by simp_all
    moreover have "9007199254740992 * 1 \<le> 9007199254740992 * H"
      using H by (intro mult_le_mono2) simp
    ultimately show ?thesis by simp
  next
    case False
    then have big: "53 < bit_length a" by simp
    define sh where "sh = bit_length a - 53"
    define q where "q = a div 2 ^ sh"
    define r where "r = a mod 2 ^ sh"
    define P :: nat where "P = 2 ^ sh"
    define q' where "q' = (if 2 ^ (sh - 1) < r \<or> (r = 2 ^ (sh - 1) \<and> odd q) then q + 1 else q)"
    note f = round_53_large [OF big, folded sh_def q_def r_def, folded q'_def P_def]
    have rnd: "round_53 a = q' * P" and q_ge: "4503599627370496 \<le> q"
      and q_lt: "q < 9007199254740992" and a: "a = q * P + r" and r: "r < P"
      using f by simp_all
    have q'_ge: "q \<le> q'" and q'_le: "q' \<le> q + 1" by (simp_all add: q'_def)
    consider "sh \<le> 970" | "sh = 971" | "972 \<le> sh" by linarith
    then have X: "(18014398509481984 * H \<le> q' * P) = (18014398509481983 * H \<le> q * P + r)"
    proof cases
      case 1
      then have "P \<le> H" unfolding P_def H_def by (intro power_increasing) simp_all
      have u1: "q' * P \<le> 9007199254740992 * H"
        using q'_le q_lt \<open>P \<le> H\<close> by (intro mult_le_mono) simp_all
      have u2: "q * P + r < (q + 1) * P" using r by simp
      have u3: "(q + 1) * P \<le> 9007199254740992 * H"
        using q_lt \<open>P \<le> H\<close> by (intro mult_le_mono) simp_all
      have L: "\<not> 18014398509481984 * H \<le> q' * P" using u1 H by linarith
      have R: "\<not> 18014398509481983 * H \<le> q * P + r" using u2 u3 H by linarith
      from L R show ?thesis by blast
    next
      case 3
      then have "2 ^ 972 \<le> P" unfolding P_def by (intro power_increasing) simp_all
      moreover have "(2::nat) ^ 972 = 4 * H" by (simp add: H_def)
      ultimately have "4 * H \<le> P" by simp
      have u1: "4503599627370496 * (4 * H) \<le> q * P"
        using q_ge \<open>4 * H \<le> P\<close> by (intro mult_le_mono) simp_all
      have u2: "q * P \<le> q' * P" using q'_ge by (rule mult_le_mono1)
      have L: "18014398509481984 * H \<le> q' * P" using u1 u2 by linarith
      have R: "18014398509481983 * H \<le> q * P + r" using u1 by linarith
      from L R show ?thesis by blast
    next
      case 2
      then have P: "P = 2 * H" and h: "(2::nat) ^ (sh - 1) = H"
        by (simp_all add: P_def H_def)
      show ?thesis
      proof (cases "q = 9007199254740991")
        case True
        then have "odd q" by simp
        show ?thesis
        proof (cases "H \<le> r")
          case up: True
          with \<open>odd q\<close> have "q' = q + 1" unfolding q'_def h by auto
          with True have "q' * P = 9007199254740992 * (2 * H)" by (simp add: P)
          then have L: "18014398509481984 * H \<le> q' * P" by linarith
          from True have "q * P = 9007199254740991 * (2 * H)" by (simp add: P)
          with up have R: "18014398509481983 * H \<le> q * P + r" by linarith
          from L R show ?thesis by blast
        next
          case down: False
          then have "q' = q" unfolding q'_def h by auto
          with True have "q' * P = 9007199254740991 * (2 * H)" by (simp add: P)
          with H have L: "\<not> 18014398509481984 * H \<le> q' * P" by linarith
          from True have "q * P = 9007199254740991 * (2 * H)" by (simp add: P)
          with down have R: "\<not> 18014398509481983 * H \<le> q * P + r" by linarith
          from L R show ?thesis by blast
        qed
      next
        case False
        with q_lt have "q + 1 \<le> 9007199254740991" by simp
        then have "(q + 1) * P \<le> 9007199254740991 * P" by (rule mult_le_mono1)
        then have u1: "(q + 1) * P \<le> 9007199254740991 * (2 * H)" by (simp only: P)
        have u2: "q' * P \<le> (q + 1) * P" using q'_le by (rule mult_le_mono1)
        have u3: "q * P + r < (q + 1) * P" using r by simp
        have L: "\<not> 18014398509481984 * H \<le> q' * P" using u1 u2 H by linarith
        have R: "\<not> 18014398509481983 * H \<le> q * P + r" using u1 u3 H by linarith
        from L R show ?thesis by blast
      qed
    qed
    show ?thesis by (simp only: rnd) (subst a, rule X)
  qed
  from goal [unfolded e2 [symmetric] e1 [symmetric]] show ?thesis .
qed

lemma float_of_int_error:
  "(\<exists>e. float_of_int v = Inl e) = (2 ^ 1024 - 2 ^ 970 \<le> \<bar>v\<bar>)"
proof -
  have "(2 ^ 1024 \<le> round_53 (nat \<bar>v\<bar>)) = (2 ^ 1024 - 2 ^ 970 \<le> nat \<bar>v\<bar>)"
    by (rule round_53_overflow)
  also have "\<dots> = (2 ^ 1024 - 2 ^ 970 \<le> \<bar>v\<bar>)"
  proof -
    have "int (2 ^ 1024 - 2 ^ 970) = 2 ^ 1024 - 2 ^ 970" by (simp add: of_nat_diff)
    then show ?thesis by (metis abs_ge_zero nat_0_le of_nat_le_iff)
  qed
  finally show ?thesis by (auto simp: float_of_int_def Let_def)
qed

lemma moves_defined_iff:
  "(\<exists>ms. get_possible_moves s = Inr ms)
    = (0 \<le> current_value s \<and> current_value s < 2 ^ 1024 - 2 ^ 970)"
proof -
  let ?v = "current_value s"
  show ?thesis
  proof (cases "\<exists>e. float_of_int ?v = Inl e")
    case True
    then obtain e where e: "float_of_int ?v = Inl e" ..
    then have "get_possible_moves s = Inl e"
      by (simp add: get_possible_moves_def int_sqrt_float_def)
    moreover from True have "2 ^ 1024 - 2 ^ 970 \<le> \<bar>?v\<bar>" by (simp only: float_of_int_error)
    ultimately show ?thesis by auto
  next
    case False
    then obtain x where x: "float_of_int ?v = Inr x" by (cases "float_of_int ?v") auto
    have small: "\<not> 2 ^ 1024 - 2 ^ 970 \<le> \<bar>?v\<bar>"
      using False float_of_int_error [of ?v] by blast
    from float_of_int_sign [OF x] have sign: "(x < 0) = (?v < 0)" .
    show ?thesis
    proof (cases "?v < 0")
      case True
      with sign x have "get_possible_moves s = Inl TypeError"
        by (simp add: get_possible_moves_def int_sqrt_float_def)
      with True show ?thesis by simp
    next
      case False
      with sign x have "\<exists>ms. get_possible_moves s = Inr ms"
        by (simp add: get_possible_moves_def int_sqrt_float_def)
      with False small show ?thesis by simp
    qed
  qed
qed

lemma float_of_int_error_kind: "float_of_int v = Inl e \<Longrightarrow> e = OverflowError"
  by (simp add: float_of_int_def Let_def split: if_splits)

text \<open>
  C10 as stated fails at the value \<open>2\<^sup>1\<^sup>0\<^sup>2\<^sup>4\<close>, which is not negative: the conversion to a
  double overflows and \<^verbatim>\<open>get_possible_moves\<close> raises \<^verbatim>\<open>OverflowError\<close>. And a negative value
  is no obstacle to the queries that do not list the moves: \<^verbatim>\<open>make_move\<close> and the
  canonical form work at the value \<open>-1\<close>.
\<close>

theorem moves_total_counterexample:
  "0 \<le> current_value (init True (2 ^ 1024))
    \<and> get_possible_moves (init True (2 ^ 1024)) = Inl OverflowError
    \<and> current_value (init True (- 1)) < 0
    \<and> make_move (init True (- 1)) 1 = init False (- 2)
    \<and> repr (init True (- 1)) = ''SubtractSquareGameState(p1_turn=True, current_value=-1)''"
proof -
  have "(2::int) ^ 1024 - 2 ^ 970 \<le> \<bar>2 ^ 1024\<bar>" by simp
  then obtain e where e: "float_of_int (2 ^ 1024) = Inl e"
    using float_of_int_error [of "2 ^ 1024"] by blast
  from float_of_int_error_kind [OF e] e
  have "float_of_int (2 ^ 1024) = Inl OverflowError" by simp
  then have a: "get_possible_moves (init True (2 ^ 1024)) = Inl OverflowError"
    by (simp add: get_possible_moves_def int_sqrt_float_def init_def)
  have b: "0 \<le> current_value (init True (2 ^ 1024))" by (simp add: init_def)
  have c: "current_value (init True (- 1)) < 0" by (simp add: init_def)
  have d: "make_move (init True (- 1)) 1 = init False (- 2)" by (simp add: make_move_init)
  have f: "repr (init True (- 1)) = ''SubtractSquareGameState(p1_turn=True, current_value=-1)''"
    by (simp add: repr_def init_def str_bool_def str_int_def digits.simps digit_char_def)
  from a b c d f show ?thesis by (intro conjI)
qed

text \<open>
  C10, amended. At every negative value \<^verbatim>\<open>get_possible_moves\<close> raises and returns no list:
  it returns a list only at a value that is at least \<open>0\<close>. So a value of at least \<open>0\<close> is a
  precondition of \<^verbatim>\<open>get_possible_moves\<close> and of the queries that call it,
  \<^verbatim>\<open>rough_outcome\<close> and \<^verbatim>\<open>is_valid_move\<close>.
\<close>

theorem moves_need_nonnegative:
  "((\<exists>ms. get_possible_moves s = Inr ms) \<longrightarrow> 0 \<le> current_value s)
    \<and> (current_value s < 0 \<longrightarrow>
          (\<exists>e. get_possible_moves s = Inl e) \<and> (\<exists>e. rough_outcome s = Inl e)
          \<and> (\<exists>e. is_valid_move s m = Inl e))"
proof (intro conjI impI)
  assume "\<exists>ms. get_possible_moves s = Inr ms"
  then show "0 \<le> current_value s" by (simp add: moves_defined_iff)
next
  assume "current_value s < 0"
  then obtain e where e: "get_possible_moves s = Inl e"
    using moves_error_if_negative by blast
  then show "\<exists>e. get_possible_moves s = Inl e" ..
  from e have "rough_outcome s = Inl e" by (subst rough_outcome.simps) simp
  then show "\<exists>e. rough_outcome s = Inl e" ..
  from e have "is_valid_move s m = Inl e" by (simp add: is_valid_move_def)
  then show "\<exists>e. is_valid_move s m = Inl e" ..
qed

theorem moves_need_nonnegative_witness:
  "current_value (init True (- 1)) < 0
    \<and> (\<exists>e. get_possible_moves (init True (- 1)) = Inl e)
    \<and> (\<exists>e. rough_outcome (init True (- 1)) = Inl e)
    \<and> (\<exists>ms. get_possible_moves (init True 10) = Inr ms)
    \<and> 0 \<le> current_value (init True 10)"
proof -
  have a: "current_value (init True (- 1)) < 0" by (simp add: init_def)
  from moves_need_nonnegative [of "init True (- 1)" 1, THEN conjunct2, rule_format, OF a]
  have b: "\<exists>e. get_possible_moves (init True (- 1)) = Inl e"
    and c: "\<exists>e. rough_outcome (init True (- 1)) = Inl e" by blast+
  have d: "\<exists>ms. get_possible_moves (init True 10) = Inr ms" by (simp add: moves_10)
  from moves_need_nonnegative [of "init True 10" 1, THEN conjunct1, rule_format, OF d]
  have f: "0 \<le> current_value (init True 10)" .
  from a b c d f show ?thesis by (intro conjI)
qed

subsection \<open>The list of moves below \<open>2\<^sup>5\<^sup>2\<close>\<close>

text \<open>
  Below \<open>2\<^sup>5\<^sup>2\<close> the double arithmetic is exact enough: the truncated root of the double is
  the integer square root, and the moves are the squares that do not exceed the value.
\<close>

lemma isqrt_correct: "isqrt n * isqrt n \<le> n \<and> n < (isqrt n + 1) * (isqrt n + 1)"
proof (induction n rule: isqrt.induct)
  case (1 n)
  show ?case
  proof (cases "n < 2")
    case True
    then have "isqrt n = n" by (simp add: isqrt.simps)
    moreover from True have "n = 0 \<or> n = 1" by auto
    ultimately show ?thesis by auto
  next
    case False
    define r0 where "r0 = isqrt (n div 4)"
    define m where "m = n div 4"
    from 1 [OF False] have ih: "r0 * r0 \<le> m" "m < (r0 + 1) * (r0 + 1)"
      by (simp_all add: r0_def m_def)
    have n: "4 * m \<le> n" "n < 4 * m + 4" by (simp_all add: m_def)
    have eq: "isqrt n = isqrt_step n (2 * r0)"
      using False by (simp add: isqrt.simps r0_def)
    have lo: "(2 * r0) * (2 * r0) \<le> n" using ih(1) n(1) by simp
    have "m + 1 \<le> (r0 + 1) * (r0 + 1)" using ih(2) by simp
    then have "4 * (m + 1) \<le> 4 * ((r0 + 1) * (r0 + 1))" by simp
    also have "\<dots> = (2 * r0 + 2) * (2 * r0 + 2)" by (simp add: algebra_simps)
    finally have hi: "n < (2 * r0 + 2) * (2 * r0 + 2)" using n(2) by simp
    show ?thesis
    proof (cases "(2 * r0 + 1) * (2 * r0 + 1) \<le> n")
      case True
      then have "isqrt n = 2 * r0 + 1" by (simp add: eq isqrt_step_def)
      with True hi show ?thesis by (simp add: add.assoc)
    next
      case False
      then have "isqrt n = 2 * r0" by (simp add: eq isqrt_step_def)
      with False lo show ?thesis by simp
    qed
  qed
qed

lemma isqrt_ge: "a * a \<le> n \<Longrightarrow> a \<le> isqrt n"
proof (rule ccontr)
  assume a: "a * a \<le> n" and "\<not> a \<le> isqrt n"
  then have "isqrt n + 1 \<le> a" by simp
  then have "(isqrt n + 1) * (isqrt n + 1) \<le> a * a" by (intro mult_le_mono)
  with a isqrt_correct [of n] show False by simp
qed

lemma isqrt_lt: "n < b * b \<Longrightarrow> isqrt n < b"
proof (rule ccontr)
  assume b: "n < b * b" and "\<not> isqrt n < b"
  then have "b \<le> isqrt n" by simp
  then have "b * b \<le> isqrt n * isqrt n" by (intro mult_le_mono)
  with b isqrt_correct [of n] show False by simp
qed

lemma bit_length_le: "a < 2 ^ n \<Longrightarrow> bit_length a \<le> n"
proof (rule ccontr)
  assume a: "a < 2 ^ n" and "\<not> bit_length a \<le> n"
  then have n: "n \<le> bit_length a - 1" by simp
  have "a \<noteq> 0" using \<open>\<not> bit_length a \<le> n\<close> bit_length_0 by (cases "a = 0") simp_all
  then have low: "2 ^ (bit_length a - 1) \<le> a" by (intro bit_length_lower) simp
  have "(2::nat) ^ n \<le> 2 ^ (bit_length a - 1)" using n by (intro power_increasing) simp_all
  also note low
  also note a
  finally show False by simp
qed

lemma float_sqrt_trunc_exact:
  assumes x: "x < 2 ^ 52"
  shows "float_sqrt_trunc x = isqrt x"
proof -
  define n where "n = bit_length x"
  define k where "k = (106 - n) div 2"
  define t :: nat where "t = 2 ^ k"
  define s where "s = isqrt x"
  define y where "y = x * (t * t)"
  define m where "m = isqrt y"
  define M where "M = round_nearest x k 0 m"
  have n: "n \<le> 52" unfolding n_def using x by (rule bit_length_le)
  then have k: "27 \<le> k" and e: "(n - 105) div 2 = 0" by (simp_all add: k_def)
  have four: "(4::nat) ^ k = t * t"
    by (simp add: t_def power_mult_distrib [symmetric])
  have res: "float_sqrt_trunc x = M div t"
    unfolding float_sqrt_trunc_def Let_def n_def [symmetric] e k_def [symmetric]
    by (simp add: M_def m_def y_def four t_def)
  have "(2::nat) ^ 27 \<le> 2 ^ k" using k by (intro power_increasing) simp_all
  then have t: "134217728 \<le> t" by (simp add: t_def)
  have sx: "s * s \<le> x" "x < (s + 1) * (s + 1)"
    using isqrt_correct [of x] by (simp_all add: s_def)
  have "x < 67108864 * 67108864" using x by simp
  then have "s < 67108864" unfolding s_def by (rule isqrt_lt)
  with t have st: "s + 1 \<le> t" by simp
  have my: "m * m \<le> y" "y < (m + 1) * (m + 1)"
    using isqrt_correct [of y] by (simp_all add: m_def)
  have "(s * t) * (s * t) = (s * s) * (t * t)" by (simp add: algebra_simps)
  also have "\<dots> \<le> y" unfolding y_def using sx(1) by (rule mult_le_mono1)
  finally have lo: "s * t \<le> m" unfolding m_def by (rule isqrt_ge)
  have "x + 1 \<le> (s + 1) * (s + 1)" using sx(2) by simp
  then have "(x + 1) * (t * t) \<le> ((s + 1) * (s + 1)) * (t * t)" by (rule mult_le_mono1)
  also have "\<dots> = ((s + 1) * t) * ((s + 1) * t)" by (simp add: algebra_simps)
  finally have yB: "y + t * t \<le> ((s + 1) * t) * ((s + 1) * t)"
    by (simp add: y_def algebra_simps)
  have "0 < t * t" using t by simp
  with yB have "y < ((s + 1) * t) * ((s + 1) * t)" by linarith
  then have hi: "m < (s + 1) * t" unfolding m_def by (rule isqrt_lt)
  have Mm: "m \<le> M" "M \<le> m + 1" by (simp_all add: M_def round_nearest_def)
  have "M < (s + 1) * t"
  proof (cases "m + 1 = (s + 1) * t")
    case False
    with hi Mm(2) show ?thesis by simp
  next
    case True
    have "(s + 1) * t \<le> t * t" using st by (rule mult_le_mono1)
    with True have mt: "m + 1 \<le> t * t" by simp
    from yB True have "y + t * t \<le> (m + 1) * (m + 1)" by simp
    with mt have "4 * y + 4 * m + 4 \<le> 4 * ((m + 1) * (m + 1))" by simp
    also have "\<dots> = (2 * m + 1) * (2 * m + 1) + 4 * m + 3" by (simp add: algebra_simps)
    finally have "4 * y < (2 * m + 1) * (2 * m + 1)" by simp
    then have "M = m" by (simp add: M_def round_nearest_def y_def four mult.assoc)
    with hi show ?thesis by simp
  qed
  moreover have "s * t \<le> M" using lo Mm(1) by simp
  ultimately have "M div t = s"
    by (intro div_nat_eqI) (simp_all add: mult.commute)
  with res show ?thesis by (simp add: s_def)
qed

lemma isqrt_le_iff: "(a \<le> isqrt n) = (a * a \<le> n)"
proof
  assume "a \<le> isqrt n"
  then have "a * a \<le> isqrt n * isqrt n" by (intro mult_le_mono)
  with isqrt_correct [of n] show "a * a \<le> n" by simp
next
  assume "a * a \<le> n"
  then show "a \<le> isqrt n" by (rule isqrt_ge)
qed

lemma int_sqrt_float_exact:
  assumes "0 \<le> v" and "v < 2 ^ 52"
  shows "int_sqrt_float v = Inr (int (isqrt (nat v)))"
proof -
  from assms have a: "nat v < 2 ^ 52" by (simp add: nat_less_iff)
  then have "bit_length (nat v) \<le> 53" using bit_length_le [OF a] by simp
  then have r: "round_53 (nat v) = nat v" and "nat v < 2 ^ 53"
    using round_53_small by blast+
  then have "\<not> 2 ^ 1024 \<le> nat v" by simp
  with r assms(1) have "float_of_int v = Inr v"
    by (simp add: float_of_int_def Let_def sgn_if)
  with assms(1) show ?thesis
    by (simp add: int_sqrt_float_def float_sqrt_trunc_exact [OF a])
qed

lemma moves_exact_below_2_52:
  assumes "0 \<le> current_value s" and "current_value s < 2 ^ 52"
  shows "\<exists>ms. get_possible_moves s = Inr ms
    \<and> set ms = {k * k | k. 1 \<le> k \<and> k * k \<le> current_value s}"
proof -
  let ?v = "current_value s"
  have ms: "get_possible_moves s = Inr (map (\<lambda>i. i * i) [1 .. int (isqrt (nat ?v))])"
    by (simp add: get_possible_moves_def int_sqrt_float_exact [OF assms])
  have iff: "(k \<le> int (isqrt (nat ?v))) = (k * k \<le> ?v)" if k: "1 \<le> k" for k :: int
  proof -
    have "(k \<le> int (isqrt (nat ?v))) = (nat k \<le> isqrt (nat ?v))" using k by linarith
    also have "\<dots> = (nat k * nat k \<le> nat ?v)" by (rule isqrt_le_iff)
    also have "\<dots> = (k * k \<le> ?v)"
    proof -
      have "int (nat k * nat k) = k * k" using k by simp
      then show ?thesis using assms(1) by (metis nat_0_le nat_int of_nat_le_iff)
    qed
    finally show ?thesis .
  qed
  have "set (map (\<lambda>i. i * i) [1 .. int (isqrt (nat ?v))])
    = (\<lambda>i. i * i) ` {k. 1 \<le> k \<and> k \<le> int (isqrt (nat ?v))}" by auto
  also have "{k. 1 \<le> k \<and> k \<le> int (isqrt (nat ?v))} = {k. 1 \<le> k \<and> k * k \<le> ?v}"
    using iff by blast
  also have "(\<lambda>i. i * i) ` {k. 1 \<le> k \<and> k * k \<le> ?v}
    = {k * k | k. 1 \<le> k \<and> k * k \<le> ?v}" by blast
  finally show ?thesis using ms by simp
qed

subsection \<open>The algorithm of the outcome estimate\<close>

text \<open>
  Where \<^verbatim>\<open>get_possible_moves\<close> returns its list and the estimate returns a value on every
  successor, \<^verbatim>\<open>rough_outcome\<close> returns what the algorithm of the specification gives for
  that list and those values. It does not where a call raises, as the two values after
  these lemmas show.
\<close>

lemma scan_moves_returns:
  assumes "\<And>m. m \<in> set ms \<Longrightarrow> f m = Inr (out m)"
  shows "scan_moves f ms
    = Inr (case find (\<lambda>m. out m = LOSE) ms of Some m \<Rightarrow> WIN | None \<Rightarrow> DRAW)"
  using assms by (induction ms) simp_all

lemma rough_outcome_follows_spec:
  assumes "get_possible_moves s = Inr ms"
    and "\<And>m. m \<in> set ms \<Longrightarrow> rough_outcome (make_move s m) = Inr (out m)"
  shows "rough_outcome s = Inr (rough_outcome_spec ms out)"
proof (cases "ms = []")
  case True
  with assms(1) show ?thesis
    by (subst rough_outcome.simps) (simp add: rough_outcome_spec_def)
next
  case False
  have "scan_moves (\<lambda>move. rough_outcome (make_move s move)) ms
    = Inr (case find (\<lambda>m. out m = LOSE) ms of Some m \<Rightarrow> WIN | None \<Rightarrow> DRAW)"
    using assms(2) by (rule scan_moves_returns)
  with assms(1) False show ?thesis
    by (subst rough_outcome.simps) (simp add: rough_outcome_spec_def)
qed

lemma rough_outcome_spec_values:
  "rough_outcome_spec ms out = LOSE \<or> rough_outcome_spec ms out = WIN
    \<or> rough_outcome_spec ms out = DRAW"
  by (simp add: rough_outcome_spec_def split: option.splits)

lemma moves_overflow: "get_possible_moves (init p (2 ^ 1024)) = Inl OverflowError"
proof -
  have "(2::int) ^ 1024 - 2 ^ 970 \<le> \<bar>2 ^ 1024\<bar>" by simp
  then obtain e where e: "float_of_int (2 ^ 1024) = Inl e"
    using float_of_int_error [of "2 ^ 1024"] by blast
  from float_of_int_error_kind [OF e] e
  have "float_of_int (2 ^ 1024) = Inl OverflowError" by simp
  then show ?thesis by (simp add: get_possible_moves_def int_sqrt_float_def init_def)
qed

lemma rough_outcome_error: "get_possible_moves s = Inl e \<Longrightarrow> rough_outcome s = Inl e"
  by (subst rough_outcome.simps) simp

lemma rough_outcome_overflow: "rough_outcome (init p (2 ^ 1024)) = Inl OverflowError"
  by (rule rough_outcome_error [OF moves_overflow])

lemma scan_moves_not_lose: "scan_moves f ms \<noteq> Inr LOSE"
  by (induction ms) (auto simp: LOSE_def WIN_def DRAW_def split: sum.splits)

lemma rough_outcome_lose:
  assumes "rough_outcome s = Inr LOSE"
  shows "get_possible_moves s = Inr []"
proof (cases "get_possible_moves s")
  case (Inl e)
  then have "rough_outcome s = Inl e" by (subst rough_outcome.simps) simp
  with assms show ?thesis by simp
next
  case (Inr ms)
  show ?thesis
  proof (cases "ms = []")
    case True
    with Inr show ?thesis by simp
  next
    case False
    with Inr have "rough_outcome s = scan_moves (\<lambda>move. rough_outcome (make_move s move)) ms"
      by (subst rough_outcome.simps) simp
    with assms scan_moves_not_lose show ?thesis by metis
  qed
qed

lemma scan_moves_raises:
  assumes "\<And>m. m \<in> set ms \<Longrightarrow> f m \<noteq> Inr LOSE" and "\<exists>m \<in> set ms. isl (f m)"
  shows "isl (scan_moves f ms)"
  using assms by (induction ms) (auto split: sum.splits)

lemma float_sqrt_trunc_pos:
  assumes "1 \<le> x" and "x < 2 ^ 105"
  shows "1 \<le> float_sqrt_trunc x"
proof -
  define n where "n = bit_length x"
  define k where "k = (106 - n) div 2"
  define t :: nat where "t = 2 ^ k"
  define m where "m = isqrt (x * (t * t))"
  define M where "M = round_nearest x k 0 m"
  have "n \<le> 105" unfolding n_def using assms(2) by (rule bit_length_le)
  then have e: "(n - 105) div 2 = 0" by simp
  have four: "(4::nat) ^ k = t * t"
    by (simp add: t_def power_mult_distrib [symmetric])
  have res: "float_sqrt_trunc x = M div t"
    unfolding float_sqrt_trunc_def Let_def n_def [symmetric] e k_def [symmetric]
    by (simp add: M_def m_def four t_def)
  have t: "0 < t" by (simp add: t_def)
  have "t * t \<le> x * (t * t)" using assms(1) by simp
  then have "t \<le> m" unfolding m_def by (rule isqrt_ge)
  moreover have "m \<le> M" by (simp add: M_def round_nearest_def)
  ultimately have "t \<le> M" by simp
  with t have "0 < M div t" by (simp add: div_greater_zero_iff)
  with res show ?thesis by simp
qed

lemma round_53_upper:
  assumes "a < 2 ^ 54"
  shows "round_53 a \<le> 2 ^ 54"
proof (cases "bit_length a \<le> 53")
  case True
  then have "round_53 a = a" using round_53_small by blast
  with assms show ?thesis by simp
next
  case False
  then have big: "53 < bit_length a" by simp
  have "bit_length a \<le> 54" using assms by (rule bit_length_le)
  with big have sh: "bit_length a - 53 = 1" by simp
  note f = round_53_large [OF big, unfolded sh]
  from f(3) have "(if 2 ^ (1 - 1) < a mod 2 ^ 1 \<or> (a mod 2 ^ 1 = 2 ^ (1 - 1) \<and> odd (a div 2 ^ 1))
      then a div 2 ^ 1 + 1 else a div 2 ^ 1) \<le> 2 ^ 53" by simp
  then have "(if 2 ^ (1 - 1) < a mod 2 ^ 1 \<or> (a mod 2 ^ 1 = 2 ^ (1 - 1) \<and> odd (a div 2 ^ 1))
      then a div 2 ^ 1 + 1 else a div 2 ^ 1) * 2 ^ 1 \<le> 2 ^ 53 * 2 ^ 1" by (rule mult_le_mono1)
  with f(1) show ?thesis by simp
qed

lemma moves_nonempty:
  assumes "1 \<le> current_value s" and "current_value s < 2 ^ 54"
  shows "\<exists>ms. get_possible_moves s = Inr ms \<and> ms \<noteq> []"
proof -
  let ?v = "current_value s"
  define x where "x = round_53 (nat ?v)"
  have a: "nat ?v < 2 ^ 54" using assms by (simp add: nat_less_iff)
  have pos: "0 < x" unfolding x_def using assms(1) by (intro round_53_pos) simp
  have up: "x \<le> 2 ^ 54" unfolding x_def using a by (rule round_53_upper)
  then have small: "\<not> 2 ^ 1024 \<le> x" by simp
  have abs: "\<bar>?v\<bar> = ?v" and sgn: "sgn ?v = 1" using assms(1) by simp_all
  have f: "float_of_int ?v = Inr (int x)"
    unfolding float_of_int_def Let_def abs sgn x_def [symmetric] using small by simp
  have "x < 2 ^ 105" using up by simp
  with pos have "1 \<le> float_sqrt_trunc x" by (intro float_sqrt_trunc_pos) simp_all
  then have "[1 .. int (float_sqrt_trunc x)] \<noteq> []" by simp
  with f show ?thesis by (simp add: get_possible_moves_def int_sqrt_float_def)
qed

lemma estimate_raises_at_2_54_minus_1:
  "\<exists>e. rough_outcome (init p 18014398509481983) = Inl e"
proof -
  let ?s = "init p 18014398509481983"
  let ?ms = "map (\<lambda>i. i * i) [1 .. 134217728 :: int]"
  let ?f = "\<lambda>move. rough_outcome (make_move ?s move)"
  have ms: "get_possible_moves ?s = Inr ?ms"
    by (simp add: get_possible_moves_def init_def int_sqrt_float_2_54_minus_1)
  have ne: "?ms \<noteq> []" by simp
  have last: "isl (?f 18014398509481984)"
  proof -
    have "get_possible_moves (init (\<not> p) (- 1)) = Inl TypeError"
      by (simp add: get_possible_moves_def init_def int_sqrt_float_minus_1)
    then have "rough_outcome (init (\<not> p) (- 1)) = Inl TypeError" by (rule rough_outcome_error)
    then show ?thesis by (simp add: make_move_init)
  qed
  have "(18014398509481984 :: int) = 134217728 * 134217728" by simp
  moreover have "(134217728 :: int) \<in> set [1 .. 134217728]" by simp
  ultimately have "(18014398509481984 :: int) \<in> (\<lambda>i. i * i) ` set [1 .. 134217728]"
    by (rule image_eqI)
  then have mem: "(18014398509481984 :: int) \<in> set ?ms" by simp
  have nolose: "?f m \<noteq> Inr LOSE" if "m \<in> set ?ms" for m
  proof
    assume lose: "?f m = Inr LOSE"
    from that obtain i :: int where i: "1 \<le> i" "i \<le> 134217728" and m: "m = i * i" by auto
    from lose have empty: "get_possible_moves (make_move ?s m) = Inr []"
      by (rule rough_outcome_lose)
    show False
    proof (cases "i = 134217728")
      case True
      with m last lose show False by simp
    next
      case False
      with i have "i \<le> 134217727" by simp
      with i(1) have sq: "i * i \<le> 134217727 * 134217727" by (intro mult_mono) simp_all
      have nn: "0 \<le> i * i" by simp
      have cv: "current_value (make_move ?s m) = 18014398509481983 - i * i"
        by (simp add: make_move_def init_def m)
      from sq have sq': "i * i \<le> 18014398241046529" by simp
      have p54: "(2::int) ^ 54 = 18014398509481984" by simp
      have c1: "1 \<le> current_value (make_move ?s m)" unfolding cv using sq' by linarith
      have c2: "current_value (make_move ?s m) < 2 ^ 54" unfolding cv p54 using nn by linarith
      from moves_nonempty [OF c1 c2] empty show False by simp
    qed
  qed
  have "isl (scan_moves ?f ?ms)"
    using nolose mem last by (intro scan_moves_raises) blast+
  moreover have "rough_outcome ?s = scan_moves ?f ?ms"
    using ms ne by (subst rough_outcome.simps) (simp only: sum.case if_False)
  ultimately have "isl (rough_outcome ?s)" by simp
  then show ?thesis by (cases "rough_outcome ?s") simp_all
qed

text \<open>
  C1, at the values \<open>2\<^sup>1\<^sup>0\<^sup>2\<^sup>4\<close> and \<open>2\<^sup>5\<^sup>4 - 1\<close>, both at least \<open>0\<close>. At \<open>2\<^sup>1\<^sup>0\<^sup>2\<^sup>4\<close> the conversion
  to a double overflows, so the list of moves is not computed and \<^verbatim>\<open>rough_outcome\<close> raises
  \<^verbatim>\<open>OverflowError\<close>; the algorithm of the claim returns one of \<^verbatim>\<open>LOSE\<close>, \<^verbatim>\<open>WIN\<close> and
  \<^verbatim>\<open>DRAW\<close>. At \<open>2\<^sup>5\<^sup>4 - 1\<close> the list of moves is not empty and no successor's outcome is
  \<^verbatim>\<open>LOSE\<close>, where the claim gives \<^verbatim>\<open>DRAW\<close>; the last move is larger than the value, its
  successor has the value \<open>-1\<close>, and \<^verbatim>\<open>rough_outcome\<close> raises.
\<close>

theorem rough_outcome_raises:
  "0 \<le> current_value (init True (2 ^ 1024))
    \<and> rough_outcome (init True (2 ^ 1024)) = Inl OverflowError
    \<and> 0 \<le> current_value (init True 18014398509481983)
    \<and> (\<exists>e. rough_outcome (init True 18014398509481983) = Inl e)"
proof -
  have a: "0 \<le> current_value (init True (2 ^ 1024))" by (simp add: init_def)
  have b: "rough_outcome (init True (2 ^ 1024)) = Inl OverflowError"
    by (rule rough_outcome_overflow)
  have c: "0 \<le> current_value (init True 18014398509481983)" by (simp add: init_def)
  have d: "\<exists>e. rough_outcome (init True 18014398509481983) = Inl e"
    by (rule estimate_raises_at_2_54_minus_1)
  from a b c d show ?thesis by (intro conjI)
qed

end
